theory Spec2Isabelle
  imports Main
begin

section \<open>blog4go: the buffered log writer \<open>BLog\<close>\<close>

text \<open>
  The development embeds \<^verbatim>\<open>src/blog4go.go\<close>. A Go \<^verbatim>\<open>string\<close> is a sequence of bytes
  and is modelled as \<open>string\<close> (a list of 8-bit characters). The mutex of \<^verbatim>\<open>BLog\<close> is not
  modelled: every operation is embedded as one sequential, uninterrupted run, which is what
  the lock provides.
\<close>

subsection \<open>Failures\<close>

text \<open>
  Go \<^verbatim>\<open>error\<close> values handed around by \<^verbatim>\<open>bufio\<close>: the error of a sink, and
  \<^verbatim>\<open>io.ErrShortWrite\<close>.
\<close>

datatype error = ErrSink | ErrShortWrite

text \<open>
  A call either returns a value, or aborts with a run-time panic, or never returns.
  The state reached is kept beside the outcome, since what was appended before a panic stays
  appended.
\<close>

datatype panic = NilPointer | IndexOutOfRange | SliceBounds

datatype 'a outcome = Returns 'a | Panics panic | Diverges

definition ret :: "'a \<Rightarrow> 's \<Rightarrow> 's \<times> 'a outcome" where
  "ret a st = (st, Returns a)"

definition bind :: "('s \<Rightarrow> 's \<times> 'a outcome) \<Rightarrow> ('a \<Rightarrow> 's \<Rightarrow> 's \<times> 'b outcome) \<Rightarrow> 's \<Rightarrow> 's \<times> 'b outcome" where
  "bind m f st =
     (case m st of
        (st', Returns a) \<Rightarrow> f a st'
      | (st', Panics p) \<Rightarrow> (st', Panics p)
      | (st', Diverges) \<Rightarrow> (st', Diverges))"

subsection \<open>Sinks: the \<^verbatim>\<open>io.Writer\<close> behind the buffer\<close>

text \<open>
  A sink is any \<^verbatim>\<open>io.Writer\<close>. Its state is the bytes it has accepted so far and a script
  of replies to its next \<^verbatim>\<open>Write\<close> calls: \<open>Accept\<close> takes all of \<^verbatim>\<open>p\<close> and returns
  \<^verbatim>\<open>(len(p), nil)\<close>; \<open>Fail m\<close> takes the first \<open>m\<close> bytes (at most \<^verbatim>\<open>len(p)\<close>) and
  returns an error; \<open>Short m\<close> takes the first \<open>m\<close> bytes and returns no error. Once the
  script is used up the sink accepts everything.
\<close>

datatype reply = Accept | Fail nat | Short nat

record sink =
  written :: string
  replies :: "reply list"

definition sink_Write :: "sink \<Rightarrow> string \<Rightarrow> sink \<times> nat \<times> error option" where
  "sink_Write k p =
     (case replies k of
        [] \<Rightarrow> (k\<lparr>written := written k @ p\<rparr>, length p, None)
      | Accept # rs \<Rightarrow> (k\<lparr>written := written k @ p, replies := rs\<rparr>, length p, None)
      | Fail m # rs \<Rightarrow>
          (k\<lparr>written := written k @ take m p, replies := rs\<rparr>, min m (length p), Some ErrSink)
      | Short m # rs \<Rightarrow>
          (k\<lparr>written := written k @ take m p, replies := rs\<rparr>, min m (length p), None))"

text \<open>Sinks are objects shared by reference: a store maps a sink's address to its state.\<close>

type_synonym store = "nat \<Rightarrow> sink"

subsection \<open>\<^verbatim>\<open>bufio.Writer\<close>\<close>

text \<open>
  The standard library's buffered writer, as \<^verbatim>\<open>BLog\<close> uses it. \<open>buf\<close> holds the buffered
  bytes \<^verbatim>\<open>b.buf[0:b.n]\<close>, \<open>bcap\<close> is \<^verbatim>\<open>len(b.buf)\<close>, \<open>err\<close> is the sticky error and
  \<open>wr\<close> the address of the sink.
\<close>

record bufio_Writer =
  err :: "error option"
  buf :: string
  bcap :: nat
  wr :: nat

type_synonym bstate = "store \<times> bufio_Writer"

definition NewWriterSize :: "nat \<Rightarrow> nat \<Rightarrow> bufio_Writer" where
  "NewWriterSize w sz =
     \<lparr>err = None, buf = [], bcap = (if sz = 0 then 4096 else sz), wr = w\<rparr>"

definition Available :: "bufio_Writer \<Rightarrow> nat" where
  "Available b = bcap b - length (buf b)"

definition bufio_Flush :: "bstate \<Rightarrow> bstate \<times> error option" where
  "bufio_Flush sb =
     (let (S, b) = sb in
      if err b \<noteq> None then ((S, b), err b)
      else if buf b = [] then ((S, b), None)
      else
        (let (k, m, e) = sink_Write (S (wr b)) (buf b);
             e' = (if m < length (buf b) \<and> e = None then Some ErrShortWrite else e)
         in if e' \<noteq> None
            then ((S(wr b := k), b\<lparr>buf := drop m (buf b), err := e'\<rparr>), e')
            else ((S(wr b := k), b\<lparr>buf := []\<rparr>), None)))"

definition bufio_Reset :: "nat \<Rightarrow> bstate \<Rightarrow> bstate" where
  "bufio_Reset w sb = (let (S, b) = sb in (S, b\<lparr>err := None, buf := [], wr := w\<rparr>))"

text \<open>
  \<^verbatim>\<open>Write\<close>: while \<^verbatim>\<open>p\<close> does not fit and no error is pending, an empty buffer passes
  \<^verbatim>\<open>p\<close> straight to the sink, a non-empty one is filled up and flushed.
\<close>

definition Write_measure :: "bstate \<times> string \<times> nat \<Rightarrow> nat" where
  "Write_measure x =
     (let ((S, b), p, nn) = x in
      if err b \<noteq> None \<or> length p \<le> Available b then 0
      else 1 + 2 * length (replies (S (wr b))) + (if buf b = [] then 0 else 1))"

function bufio_Write_loop :: "bstate \<Rightarrow> string \<Rightarrow> nat \<Rightarrow> bstate \<times> string \<times> nat" where
  "bufio_Write_loop sb p nn =
     (let (S, b) = sb in
      if length p > Available b \<and> err b = None then
        (if buf b = [] then
           (let (k, m, e) = sink_Write (S (wr b)) p
            in bufio_Write_loop (S(wr b := k), b\<lparr>err := e\<rparr>) (drop m p) (nn + m))
         else
           (let m = min (Available b) (length p);
                sb' = fst (bufio_Flush (S, b\<lparr>buf := buf b @ take m p\<rparr>))
            in bufio_Write_loop sb' (drop m p) (nn + m)))
      else (sb, p, nn))"
  by pat_completeness auto
termination
proof (relation "measure (\<lambda>(sb, p, nn). Write_measure (sb, p, nn))", goal_cases)
  case 1
  show ?case by simp
next
  case 2
  then show ?case
    by (auto simp: Write_measure_def sink_Write_def Available_def
             split: list.splits reply.splits)
next
  case 3
  then show ?case
    by (auto simp: Write_measure_def bufio_Flush_def sink_Write_def Available_def Let_def
             split: list.splits reply.splits prod.splits if_splits)
qed

declare bufio_Write_loop.simps [simp del]

definition bufio_Write :: "string \<Rightarrow> bstate \<Rightarrow> bstate \<times> (nat \<times> error option) outcome" where
  "bufio_Write p sb =
     (let ((S, b), p', nn) = bufio_Write_loop sb p 0 in
      if err b \<noteq> None then ((S, b), Returns (nn, err b))
      else ((S, b\<lparr>buf := buf b @ p'\<rparr>), Returns (nn + length p', None)))"

text \<open>
  \<^verbatim>\<open>WriteString\<close>, for a sink that is not an \<^verbatim>\<open>io.StringWriter\<close>: while \<^verbatim>\<open>s\<close> does
  not fit and no error is pending, the buffer is filled up and flushed. With an empty buffer of length 0 an iteration copies nothing and
  flushes nothing, so the Go loop repeats it for ever.
\<close>

definition WriteString_measure :: "bstate \<times> string \<times> nat \<Rightarrow> nat" where
  "WriteString_measure x =
     (let ((S, b), s, nn) = x in
      if err b \<noteq> None \<or> length s \<le> Available b then 0
      else 1 + 2 * length s + (if buf b \<noteq> [] \<and> Available b = 0 then 1 else 0))"

function bufio_WriteString_loop :: "bstate \<Rightarrow> string \<Rightarrow> nat \<Rightarrow> bstate \<times> (string \<times> nat) outcome" where
  "bufio_WriteString_loop sb s nn =
     (let (S, b) = sb in
      if length s > Available b \<and> err b = None then
        (if buf b = [] \<and> Available b = 0 then (sb, Diverges)
         else
           (let m = min (Available b) (length s);
                sb' = fst (bufio_Flush (S, b\<lparr>buf := buf b @ take m s\<rparr>))
            in bufio_WriteString_loop sb' (drop m s) (nn + m)))
      else (sb, Returns (s, nn)))"
  by pat_completeness auto
termination
proof (relation "measure (\<lambda>(sb, s, nn). WriteString_measure (sb, s, nn))", goal_cases)
  case 1
  show ?case by simp
next
  case (2 sb s nn x S b m sb')
  show ?case
  proof (cases "bufio_Flush (S, b\<lparr>buf := buf b @ take m s\<rparr>)")
    case (Pair sb2 e)
    obtain S2 b2 where sb2: "sb2 = (S2, b2)" by (cases sb2)
    have m: "m = min (Available b) (length s)" using 2 by simp
    have c: "length s > Available b" "err b = None" "\<not> (buf b = [] \<and> Available b = 0)"
      using 2 by auto
    have fl: "err b2 \<noteq> None \<or> (buf b2 = [] \<and> bcap b2 = bcap b)"
      using Pair sb2 c
      by (auto simp: bufio_Flush_def Let_def split: prod.splits if_splits)
    have sb': "sb' = (S2, b2)" using 2 Pair sb2 by simp
    have sb: "sb = (S, b)" using 2 by simp
    show ?thesis
    proof (cases "Available b = 0")
      case True
      then show ?thesis using fl c m sb' sb
        by (auto simp: WriteString_measure_def Available_def)
    next
      case False
      then show ?thesis using fl c m sb' sb
        by (auto simp: WriteString_measure_def Available_def)
    qed
  qed
qed

declare bufio_WriteString_loop.simps [simp del]

definition bufio_WriteString :: "string \<Rightarrow> bstate \<Rightarrow> bstate \<times> (nat \<times> error option) outcome" where
  "bufio_WriteString s sb =
     bind (\<lambda>sb. bufio_WriteString_loop sb s 0)
       (\<lambda>(s', nn) (S, b).
          if err b \<noteq> None then ((S, b), Returns (nn, err b))
          else ((S, b\<lparr>buf := buf b @ s'\<rparr>), Returns (nn + length s', None))) sb"

text \<open>
  \<^verbatim>\<open>WriteByte\<close>: a full buffer is flushed first; the store \<^verbatim>\<open>b.buf[b.n] = c\<close> is out of
  range when the buffer still has no room, which only a buffer of length 0 allows.
\<close>

definition bufio_WriteByte :: "char \<Rightarrow> bstate \<Rightarrow> bstate \<times> (error option) outcome" where
  "bufio_WriteByte c sb =
     (let (S, b) = sb in
      if err b \<noteq> None then (sb, Returns (err b))
      else
        (let (sb1, e) = (if Available b \<le> 0 then bufio_Flush sb else (sb, None));
             (S1, b1) = sb1
         in if e \<noteq> None then (sb1, Returns (err b1))
            else if Available b1 = 0 then (sb1, Panics IndexOutOfRange)
            else ((S1, b1\<lparr>buf := buf b1 @ [c]\<rparr>), Returns None)))"

subsection \<open>The writer \<^verbatim>\<open>BLog\<close>\<close>

text \<open>
  Modelled from the spec: the type \<^verbatim>\<open>Level\<close>, its constant \<^verbatim>\<open>DEBUG\<close> and its method
  \<^verbatim>\<open>Prefix\<close> are declared in another file of the package, not in \<^verbatim>\<open>blog4go.go\<close>.
  The levels are the six severities the specification lists, in its order; \<^verbatim>\<open>Prefix\<close> is a
  parameter.
\<close>

datatype Level = DEBUG | TRACE | INFO | WARN | ERROR | CRITICAL

text \<open>
  What the writer reads from outside this file: the pre-rendered time stamp
  \<^verbatim>\<open>timeCache.format\<close>, \<^verbatim>\<open>Level.Prefix\<close>, and \<^verbatim>\<open>fmt.Sprintf\<close> applied to a format and
  one argument. \<open>'a\<close> is the type of the arguments (\<^verbatim>\<open>interface{}\<close>).
\<close>

record 'a env =
  timeCache_format :: string
  Prefix :: "Level \<Rightarrow> string"
  Sprintf :: "string \<Rightarrow> 'a \<Rightarrow> string"

abbreviation EOL :: char where "EOL \<equiv> CHR 0x0A"
abbreviation ESCAPE :: char where "ESCAPE \<equiv> CHR 0x5C"
abbreviation PLACEHOLDER :: char where "PLACEHOLDER \<equiv> CHR ''%''"

text \<open>
  The fields of \<^verbatim>\<open>BLog\<close>: \<open>inp\<close> is the field \<^verbatim>\<open>in\<close> (the address of the sink),
  \<open>writer\<close> the pointer to the \<^verbatim>\<open>bufio.Writer\<close>, \<open>None\<close> when it is \<^verbatim>\<open>nil\<close>. The
  program state is the writer and the store of the sinks.
\<close>

record BLog =
  level :: Level
  inp :: nat
  writer :: "bufio_Writer option"

record state =
  blog :: BLog
  sinks :: store

text \<open>
  \<^verbatim>\<open>DefaultBufferSize\<close> is 4096 until \<^verbatim>\<open>init\<close> stores the page size of the host; 4096
  stands for that page size.
\<close>

definition DefaultBufferSize :: nat where
  "DefaultBufferSize = 4096"

definition NewBLog :: "nat \<Rightarrow> BLog" where
  "NewBLog i = \<lparr>level = DEBUG, inp = i, writer = Some (NewWriterSize i DefaultBufferSize)\<rparr>"

text \<open>A method call on \<^verbatim>\<open>blog.writer\<close>: a \<^verbatim>\<open>nil\<close> receiver is dereferenced and panics.\<close>

definition on_writer :: "(bstate \<Rightarrow> bstate \<times> 'r outcome) \<Rightarrow> state \<Rightarrow> state \<times> 'r outcome" where
  "on_writer f st =
     (case writer (blog st) of
        None \<Rightarrow> (st, Panics NilPointer)
      | Some b \<Rightarrow>
          (let ((S', b'), r) = f (sinks st, b)
           in (st\<lparr>blog := (blog st)\<lparr>writer := Some b'\<rparr>, sinks := S'\<rparr>, r)))"

definition writer_Write :: "string \<Rightarrow> state \<Rightarrow> state \<times> (nat \<times> error option) outcome" where
  "writer_Write p = on_writer (bufio_Write p)"

definition writer_WriteString :: "string \<Rightarrow> state \<Rightarrow> state \<times> (nat \<times> error option) outcome" where
  "writer_WriteString s = on_writer (bufio_WriteString s)"

definition writer_WriteByte :: "char \<Rightarrow> state \<Rightarrow> state \<times> (error option) outcome" where
  "writer_WriteByte c = on_writer (bufio_WriteByte c)"

definition writer_Flush :: "state \<Rightarrow> state \<times> (error option) outcome" where
  "writer_Flush = on_writer (\<lambda>sb. let (sb', e) = bufio_Flush sb in (sb', Returns e))"

definition writer_Reset :: "nat \<Rightarrow> state \<Rightarrow> state \<times> unit outcome" where
  "writer_Reset w = on_writer (\<lambda>sb. (bufio_Reset w sb, Returns ()))"

text \<open>
  The methods of \<^verbatim>\<open>BLog\<close> carry the receiver's type in their names.
  \<^verbatim>\<open>write\<close>: the four appends, their results dropped, then the size from the lengths.\<close>

definition BLog_write :: "'a env \<Rightarrow> Level \<Rightarrow> string \<Rightarrow> state \<Rightarrow> state \<times> nat outcome" where
  "BLog_write E lv format =
     bind (writer_Write (timeCache_format E)) (\<lambda>_.
     bind (writer_WriteString (Prefix E lv)) (\<lambda>_.
     bind (writer_WriteString format) (\<lambda>_.
     bind (writer_WriteByte EOL) (\<lambda>_.
     ret (length (timeCache_format E) + length (Prefix E lv) + length format + 1)))))"

text \<open>\<^verbatim>\<open>flush\<close> returns nothing; the result of \<^verbatim>\<open>Flush\<close> is dropped.\<close>

definition BLog_flush :: "state \<Rightarrow> state \<times> unit outcome" where
  "BLog_flush = bind writer_Flush (\<lambda>_. ret ())"

text \<open>\<^verbatim>\<open>Close\<close> flushes and sets \<^verbatim>\<open>blog.writer\<close> to \<^verbatim>\<open>nil\<close>.\<close>

definition BLog_Close :: "state \<Rightarrow> state \<times> unit outcome" where
  "BLog_Close =
     bind writer_Flush (\<lambda>_ st.
     ret () (st\<lparr>blog := (blog st)\<lparr>writer := None\<rparr>\<rparr>))"

text \<open>
  \<^verbatim>\<open>resetFile\<close> flushes, stores the new sink in \<^verbatim>\<open>blog.in\<close> and resets the buffered
  writer to it. The named result \<^verbatim>\<open>err\<close> is never assigned: the call returns \<^verbatim>\<open>nil\<close>.
\<close>

definition BLog_resetFile :: "nat \<Rightarrow> state \<Rightarrow> state \<times> (error option) outcome" where
  "BLog_resetFile i =
     bind writer_Flush (\<lambda>_.
     bind (\<lambda>st. ret () (st\<lparr>blog := (blog st)\<lparr>inp := i\<rparr>\<rparr>)) (\<lambda>_.
     bind (writer_Reset i) (\<lambda>_.
     ret None)))"

subsection \<open>\<^verbatim>\<open>writef\<close>\<close>

text \<open>
  \<^verbatim>\<open>for i, v := range format\<close> decodes runes and yields the byte offset of each. Every
  comparison in the loop is against an ASCII character, every byte of a longer rune is
  above \<^verbatim>\<open>0x7f\<close> and \<^verbatim>\<open>i + 1\<close> is only used after a one-byte verb, so the loop is
  embedded as a loop over the bytes of \<^verbatim>\<open>format\<close>.

  The local variables: \<open>argn\<close> is \<^verbatim>\<open>n\<close>, \<open>lastpos\<close> is \<^verbatim>\<open>last\<close> and \<open>total\<close> is
  \<^verbatim>\<open>size\<close>; \<^verbatim>\<open>s\<close> is bound where it is assigned.
\<close>

record vars =
  tag :: bool
  tagPos :: nat
  escape :: bool
  argn :: nat
  lastpos :: nat
  total :: nat

definition is_verb :: "char \<Rightarrow> bool" where
  "is_verb v = (v \<in> set ''dfvboxXcptsTqUeEgG'')"

text \<open>A slice \<^verbatim>\<open>s[a:b]\<close> and an index \<^verbatim>\<open>args[n]\<close>, with Go's bounds checks.\<close>

definition slice :: "string \<Rightarrow> nat \<Rightarrow> nat \<Rightarrow> 's \<Rightarrow> 's \<times> string outcome" where
  "slice s a b st =
     (if a \<le> b \<and> b \<le> length s then (st, Returns (take (b - a) (drop a s)))
      else (st, Panics SliceBounds))"

definition index :: "'a list \<Rightarrow> nat \<Rightarrow> 's \<Rightarrow> 's \<times> 'a outcome" where
  "index xs n st = (if n < length xs then (st, Returns (xs ! n)) else (st, Panics IndexOutOfRange))"

text \<open>One iteration of the loop, at byte offset \<open>i < length format\<close>.\<close>

definition writef_body :: "'a env \<Rightarrow> string \<Rightarrow> 'a list \<Rightarrow> nat \<Rightarrow> vars \<Rightarrow> state \<Rightarrow> state \<times> vars outcome" where
  "writef_body E format args i vs =
     (let v = format ! i in
      if tag vs then
        (if is_verb v then
           bind (slice format (tagPos vs) (i + 1)) (\<lambda>f.
           bind (index args (argn vs)) (\<lambda>a.
           bind (writer_WriteString (Sprintf E f a)) (\<lambda>(s, _).
           ret (vs\<lparr>escape := False, total := total vs + s, argn := argn vs + 1,
                    lastpos := i + 1, tag := False\<rparr>))))
         else if v = ESCAPE then
           (if escape vs then
              bind (writer_WriteByte ESCAPE) (\<lambda>_.
              ret (vs\<lparr>total := total vs + 1, escape := \<not> escape vs\<rparr>))
            else ret (vs\<lparr>escape := \<not> escape vs\<rparr>))
         else ret vs)
      else
        (if PLACEHOLDER = format ! i \<and> \<not> escape vs then
           bind (slice format (lastpos vs) i) (\<lambda>f.
           bind (writer_WriteString f) (\<lambda>(s, _).
           ret (vs\<lparr>tag := True, tagPos := i, total := total vs + s, escape := False\<rparr>)))
         else ret vs))"

text \<open>\<open>writef_loop E format args i k\<close> runs the \<open>k\<close> iterations at the offsets \<open>i, \<dots>, i + k - 1\<close>.\<close>

fun writef_loop :: "'a env \<Rightarrow> string \<Rightarrow> 'a list \<Rightarrow> nat \<Rightarrow> nat \<Rightarrow> vars \<Rightarrow> state \<Rightarrow> state \<times> vars outcome" where
  "writef_loop E format args i 0 vs st = (st, Returns vs)"
| "writef_loop E format args i (Suc k) vs st =
     (case writef_body E format args i vs st of
        (st', Returns vs') \<Rightarrow> writef_loop E format args (i + 1) k vs' st'
      | (st', Panics p) \<Rightarrow> (st', Panics p)
      | (st', Diverges) \<Rightarrow> (st', Diverges))"

definition vars0 :: "nat \<Rightarrow> vars" where
  "vars0 sz = \<lparr>tag = False, tagPos = 0, escape = False, argn = 0, lastpos = 0, total = sz\<rparr>"

definition BLog_writef :: "'a env \<Rightarrow> Level \<Rightarrow> string \<Rightarrow> 'a list \<Rightarrow> state \<Rightarrow> state \<times> nat outcome" where
  "BLog_writef E lv format args =
     bind (writer_Write (timeCache_format E)) (\<lambda>_.
     bind (writer_WriteString (Prefix E lv)) (\<lambda>_.
     bind (writef_loop E format args 0 (length format)
             (vars0 (length (timeCache_format E) + length (Prefix E lv)))) (\<lambda>vs.
     bind (slice format (lastpos vs) (length format)) (\<lambda>rest.
     bind (writer_WriteString rest) (\<lambda>_.
     bind (writer_WriteByte EOL) (\<lambda>_.
     ret (total vs + length rest + 1)))))))"

subsection \<open>What the operations are measured against\<close>

text \<open>
  The buffered stream of a writer is what its sink has accepted followed by what its buffer
  holds. A writer is in working order when it is open, no error is pending, its buffer has
  room and its sink accepts what it is given.
\<close>

definition stream :: "state \<Rightarrow> string" where
  "stream st =
     (case writer (blog st) of
        None \<Rightarrow> []
      | Some b \<Rightarrow> written (sinks st (wr b)) @ buf b)"

definition healthy :: "state \<Rightarrow> bool" where
  "healthy st =
     (case writer (blog st) of
        None \<Rightarrow> False
      | Some b \<Rightarrow> err b = None \<and> 0 < bcap b \<and> replies (sinks st (wr b)) = [])"

text \<open>The destination: the bytes the sink at an address has accepted.\<close>

definition destination :: "state \<Rightarrow> nat \<Rightarrow> string" where
  "destination st w = written (sinks st w)"

text \<open>
  The body \<^verbatim>\<open>writef\<close> appends between prefix and terminator, read off the loop: outside
  a placeholder the pending literal run \<open>lit\<close> grows; a \<^verbatim>\<open>%\<close> emits it and opens the
  placeholder text \<open>ph\<close> while \<^verbatim>\<open>last\<close> stays where it was; a verb emits the rendering and
  restarts the run; every second \<^verbatim>\<open>\\<close> inside a placeholder emits one \<^verbatim>\<open>\\<close>; the end
  emits \<^verbatim>\<open>format[last:]\<close>. \<open>None\<close> stands for \<^verbatim>\<open>args[n]\<close> out of range.
\<close>

datatype mode = Outside string | Inside string string bool

fun rendered :: "(string \<Rightarrow> 'a \<Rightarrow> string) \<Rightarrow> mode \<Rightarrow> string \<Rightarrow> 'a list \<Rightarrow> string option" where
  "rendered S (Outside lit) [] as = Some lit"
| "rendered S (Outside lit) (c # cs) as =
     (if c = PLACEHOLDER
      then map_option (\<lambda>r. lit @ r) (rendered S (Inside lit [c] False) cs as)
      else rendered S (Outside (lit @ [c])) cs as)"
| "rendered S (Inside lit ph e) [] as = Some (lit @ ph)"
| "rendered S (Inside lit ph e) (c # cs) as =
     (if is_verb c then
        (case as of
           [] \<Rightarrow> None
         | a # as' \<Rightarrow> map_option (\<lambda>r. S (ph @ [c]) a @ r) (rendered S (Outside []) cs as'))
      else if c = ESCAPE then
        (if e then map_option (\<lambda>r. ESCAPE # r) (rendered S (Inside lit (ph @ [c]) False) cs as)
         else rendered S (Inside lit (ph @ [c]) True) cs as)
      else rendered S (Inside lit (ph @ [c]) e) cs as)"

text \<open>
  The specification's reading of a format string: a placeholder is a \<^verbatim>\<open>%\<close>, then flag or
  width characters, then one verb. \<open>spec_body\<close> renders each placeholder against the next
  argument and passes every other character through; \<open>spec_placeholders\<close> counts the
  complete placeholders. The first argument is the text of the placeholder being read, if
  any.
\<close>

fun spec_body :: "(string \<Rightarrow> 'a \<Rightarrow> string) \<Rightarrow> string option \<Rightarrow> string \<Rightarrow> 'a list \<Rightarrow> string" where
  "spec_body S None [] as = []"
| "spec_body S None (c # cs) as =
     (if c = PLACEHOLDER then spec_body S (Some [c]) cs as else c # spec_body S None cs as)"
| "spec_body S (Some ph) [] as = ph"
| "spec_body S (Some ph) (c # cs) as =
     (if is_verb c then
        (case as of
           [] \<Rightarrow> []
         | a # as' \<Rightarrow> S (ph @ [c]) a @ spec_body S None cs as')
      else spec_body S (Some (ph @ [c])) cs as)"

fun spec_placeholders :: "bool \<Rightarrow> string \<Rightarrow> nat" where
  "spec_placeholders inside [] = 0"
| "spec_placeholders False (c # cs) = spec_placeholders (c = PLACEHOLDER) cs"
| "spec_placeholders True (c # cs) =
     (if is_verb c then Suc (spec_placeholders False cs) else spec_placeholders True cs)"

text \<open>
  \<open>terminated\<close>: every placeholder of the format string is closed by a verb, and no
  placeholder holds a second \<^verbatim>\<open>\\<close> (the flag is the pending escape).
\<close>

fun terminated :: "bool option \<Rightarrow> string \<Rightarrow> bool" where
  "terminated None [] = True"
| "terminated None (c # cs) = (if c = PLACEHOLDER then terminated (Some False) cs else terminated None cs)"
| "terminated (Some e) [] = False"
| "terminated (Some e) (c # cs) =
     (if is_verb c then terminated None cs
      else if c = ESCAPE then \<not> e \<and> terminated (Some True) cs
      else terminated (Some e) cs)"

text \<open>
  The same notions for the buffered writer alone, and the relation \<open>bappends x\<close> between
  the states before and after a run that appended \<open>x\<close> to the stream and left the writer in
  working order on the same sink, every other sink untouched.
\<close>

definition bhealthy :: "bstate \<Rightarrow> bool" where
  "bhealthy sb = (err (snd sb) = None \<and> 0 < bcap (snd sb) \<and> replies (fst sb (wr (snd sb))) = [])"

definition bstream :: "bstate \<Rightarrow> string" where
  "bstream sb = written (fst sb (wr (snd sb))) @ buf (snd sb)"

definition bappends :: "string \<Rightarrow> bstate \<Rightarrow> bstate \<Rightarrow> bool" where
  "bappends x sb sb' =
     (bhealthy sb' \<and> wr (snd sb') = wr (snd sb) \<and> bcap (snd sb') = bcap (snd sb) \<and>
      bstream sb' = bstream sb @ x \<and>
      fst sb' = (fst sb)(wr (snd sb) := fst sb' (wr (snd sb))))"

definition appends :: "string \<Rightarrow> state \<Rightarrow> state \<Rightarrow> bool" where
  "appends x st st' =
     (case (writer (blog st), writer (blog st')) of
        (Some b, Some b') \<Rightarrow>
          bappends x (sinks st, b) (sinks st', b') \<and>
          level (blog st') = level (blog st) \<and> inp (blog st') = inp (blog st)
      | _ \<Rightarrow> False)"

text \<open>
  What \<^verbatim>\<open>writef\<close> still does from offset \<open>i\<close> on: the remaining \<open>k\<close> iterations, the
  trailing run and the terminator.
\<close>

abbreviation writef_rest :: "'a env \<Rightarrow> string \<Rightarrow> 'a list \<Rightarrow> nat \<Rightarrow> nat \<Rightarrow> vars \<Rightarrow> state \<Rightarrow> state \<times> nat outcome" where
  "writef_rest E format args i k vs \<equiv>
     bind (writef_loop E format args i k vs) (\<lambda>vs.
     bind (slice format (lastpos vs) (length format)) (\<lambda>rest.
     bind (writer_WriteString rest) (\<lambda>_.
     bind (writer_WriteByte EOL) (\<lambda>_.
     ret (total vs + length rest + 1)))))"

text \<open>
  How the variables of the loop, before the iteration at offset \<open>i\<close>, determine the mode of
  \<open>rendered\<close>: the pending run is \<^verbatim>\<open>format[last:i]\<close> outside a placeholder, where the
  escape flag is clear; inside, the run is \<^verbatim>\<open>format[last:tagPos]\<close> and the placeholder
  text \<^verbatim>\<open>format[tagPos:i]\<close>.
\<close>

definition related :: "string \<Rightarrow> nat \<Rightarrow> vars \<Rightarrow> mode \<Rightarrow> bool" where
  "related format i vs m =
     (i \<le> length format \<and>
      (if tag vs
       then lastpos vs \<le> tagPos vs \<and> tagPos vs < i \<and>
            m = Inside (take (tagPos vs - lastpos vs) (drop (lastpos vs) format))
                       (take (i - tagPos vs) (drop (tagPos vs) format)) (escape vs)
       else lastpos vs \<le> i \<and> \<not> escape vs \<and>
            m = Outside (take (i - lastpos vs) (drop (lastpos vs) format))))"

text \<open>Readings of a mode: whether a placeholder is open, its text, its escape flag, the pending run.\<close>

fun inside :: "mode \<Rightarrow> bool" where
  "inside (Outside lit) = False"
| "inside (Inside lit ph e) = True"

fun spec_mode :: "mode \<Rightarrow> string option" where
  "spec_mode (Outside lit) = None"
| "spec_mode (Inside lit ph e) = Some ph"

fun esc_mode :: "mode \<Rightarrow> bool option" where
  "esc_mode (Outside lit) = None"
| "esc_mode (Inside lit ph e) = Some e"

fun lit_mode :: "mode \<Rightarrow> string" where
  "lit_mode (Outside lit) = lit"
| "lit_mode (Inside lit ph e) = []"



text \<open>
  \<open>rest_yields \<dots> R\<close>: the rest of \<^verbatim>\<open>writef\<close> does what \<open>R\<close> says. For \<open>Some out\<close> it
  appends \<open>out\<close> and the terminator and returns the count; for \<open>None\<close> it panics on
  \<^verbatim>\<open>args[n]\<close>, keeping what it appended before.
\<close>

definition rest_yields :: "'a env \<Rightarrow> string \<Rightarrow> 'a list \<Rightarrow> nat \<Rightarrow> nat \<Rightarrow> vars \<Rightarrow> state \<Rightarrow> string option \<Rightarrow> bool" where
  "rest_yields E format args i k vs st R =
     (case R of
        Some out \<Rightarrow>
          (\<exists>st'. writef_rest E format args i k vs st = (st', Returns (total vs + length out + 1)) \<and>
                 appends (out @ [EOL]) st st')
      | None \<Rightarrow>
          (\<exists>st' x. writef_rest E format args i k vs st = (st', Panics IndexOutOfRange) \<and>
                   appends x st st'))"

subsection \<open>A concrete setting\<close>

text \<open>
  A time stamp, a prefix for every level, and a stand-in for \<^verbatim>\<open>fmt.Sprintf\<close> that renders
  a string as itself and a one-digit number as its digit; a fresh writer on sink 0, every
  sink empty and accepting.
\<close>

datatype arg = Str string | Num nat

fun demo_Sprintf :: "string \<Rightarrow> arg \<Rightarrow> string" where
  "demo_Sprintf f (Str s) = s"
| "demo_Sprintf f (Num n) = (if n < 10 then [''0123456789'' ! n] else ''#'')"

definition demo_env :: "arg env" where
  "demo_env = \<lparr>timeCache_format = ''12:00:00 '', Prefix = (\<lambda>lv. ''[LOG] ''), Sprintf = demo_Sprintf\<rparr>"

definition empty_sink :: sink where
  "empty_sink = \<lparr>written = [], replies = []\<rparr>"

definition demo_state :: state where
  "demo_state = \<lparr>blog = NewBLog 0, sinks = (\<lambda>w. empty_sink)\<rparr>"


subsection \<open>Sequences of writes\<close>




section \<open>Properties\<close>

subsection \<open>A writer in working order appends what it is given\<close>

lemma bappends_refl: "bhealthy sb \<Longrightarrow> bappends [] sb sb"
  by (simp add: bappends_def)

lemma bappends_trans:
  "bappends x a b \<Longrightarrow> bappends y b c \<Longrightarrow> bappends (x @ y) a c"
  unfolding bappends_def
  by (metis (no_types, lifting) append.assoc fun_upd_upd)

lemma bufio_Flush_healthy:
  assumes "bhealthy sb"
  shows "\<exists>sb'. bufio_Flush sb = (sb', None) \<and> bappends [] sb sb' \<and> buf (snd sb') = []"
proof (cases sb)
  case (Pair S b)
  then show ?thesis using assms
    by (auto simp: bufio_Flush_def bhealthy_def bappends_def bstream_def sink_Write_def Let_def)
qed

lemma bufio_Write_loop_healthy:
  "bhealthy sb \<Longrightarrow>
   \<exists>sb' m. bufio_Write_loop sb p nn = (sb', drop m p, nn + m) \<and> bappends (take m p) sb sb' \<and>
     m \<le> length p \<and> length p - m \<le> Available (snd sb')"
proof (induction sb p nn rule: bufio_Write_loop.induct)
  case (1 sb p nn)
  obtain S b where sb: "sb = (S, b)" by (cases sb)
  show ?case
  proof (cases "length p > Available b \<and> err b = None")
    case False
    then have "bufio_Write_loop sb p nn = (sb, drop 0 p, nn + 0)"
      using sb False by (auto simp add: bufio_Write_loop.simps[of "(S, b)" p nn])
    moreover have "length p \<le> Available b" using False 1(3) sb by (simp add: bhealthy_def)
    ultimately show ?thesis using 1(3) sb
      by (intro exI[of _ sb] exI[of _ 0]) (simp add: bappends_refl)
  next
    case True
    show ?thesis
    proof (cases "buf b = []")
      case e: True
      have sw: "sink_Write (S (wr b)) p = ((S (wr b))\<lparr>written := written (S (wr b)) @ p\<rparr>, length p, None)"
        using 1(3) sb by (simp add: sink_Write_def bhealthy_def)
      let ?sb1 = "(S(wr b := (S (wr b))\<lparr>written := written (S (wr b)) @ p\<rparr>), b\<lparr>err := None\<rparr>)"
      have step: "bufio_Write_loop sb p nn = bufio_Write_loop ?sb1 (drop (length p) p) (nn + length p)"
        using True e sb sw by (simp add: bufio_Write_loop.simps[of "(S, b)" p nn])
      have "bufio_Write_loop ?sb1 [] (nn + length p) = (?sb1, [], nn + length p)"
        by (simp add: bufio_Write_loop.simps[of ?sb1 "[]"])
      with step have r: "bufio_Write_loop sb p nn = (?sb1, drop (length p) p, nn + length p)" by simp
      have "bappends (take (length p) p) sb ?sb1"
        using 1(3) sb e by (simp add: bappends_def bhealthy_def bstream_def)
      then show ?thesis using r
        by (intro exI[of _ ?sb1] exI[of _ "length p"]) simp
    next
      case ne: False
      define m where "m = min (Available b) (length p)"
      define b1 where "b1 = b\<lparr>buf := buf b @ take m p\<rparr>"
      have h1: "bhealthy (S, b1)" using 1(3) sb by (simp add: bhealthy_def b1_def)
      obtain sb' where fl: "bufio_Flush (S, b1) = (sb', None)" "bappends [] (S, b1) sb'" "buf (snd sb') = []"
        using bufio_Flush_healthy[OF h1] by blast
      have a1: "bappends (take m p) sb (S, b1)"
        using 1(3) sb by (simp add: bappends_def bhealthy_def bstream_def b1_def)
      have a2: "bappends (take m p) sb sb'" using bappends_trans[OF a1 fl(2)] by simp
      have step: "bufio_Write_loop sb p nn = bufio_Write_loop sb' (drop m p) (nn + m)"
        using True ne sb fl(1) by (simp add: bufio_Write_loop.simps[of "(S, b)" p nn] m_def b1_def Let_def)
      have hs: "bhealthy sb'" using fl(2) by (simp add: bappends_def)
      have sb'eq: "sb' = fst (bufio_Flush (S, b\<lparr>buf := buf b @ take m p\<rparr>))"
        using fl(1) by (simp add: b1_def)
      obtain sb2 m2 where ih: "bufio_Write_loop sb' (drop m p) (nn + m) = (sb2, drop m2 (drop m p), nn + m + m2)"
        "bappends (take m2 (drop m p)) sb' sb2" "m2 \<le> length (drop m p)"
        "length (drop m p) - m2 \<le> Available (snd sb2)"
        using 1(2)[OF refl sb[symmetric] True ne m_def sb'eq hs]
        by blast
      have mle: "m \<le> length p" by (simp add: m_def)
      have "bappends (take m p @ take m2 (drop m p)) sb sb2" using bappends_trans[OF a2 ih(2)] .
      moreover have "take m p @ take m2 (drop m p) = take (m + m2) p"
        by (simp add: take_add)
      ultimately have "bappends (take (m + m2) p) sb sb2" by simp
      then show ?thesis using step ih mle
        by (intro exI[of _ sb2] exI[of _ "m + m2"]) (simp add: add.commute add.assoc)
    qed
  qed
qed


lemma bufio_Write_healthy:
  assumes "bhealthy sb"
  shows "\<exists>sb'. bufio_Write p sb = (sb', Returns (length p, None)) \<and> bappends p sb sb'"
proof -
  obtain sb1 m where l: "bufio_Write_loop sb p 0 = (sb1, drop m p, 0 + m)"
    "bappends (take m p) sb sb1" "m \<le> length p" "length p - m \<le> Available (snd sb1)"
    using bufio_Write_loop_healthy[OF assms, of p 0] by blast
  obtain S1 b1 where sb1: "sb1 = (S1, b1)" by (cases sb1)
  have h1: "bhealthy (S1, b1)" using l(2) sb1 by (simp add: bappends_def)
  let ?sb' = "(S1, b1\<lparr>buf := buf b1 @ drop m p\<rparr>)"
  have r: "bufio_Write p sb = (?sb', Returns (length p, None))"
    using l(1,3) sb1 h1 by (simp add: bufio_Write_def bhealthy_def)
  have "bappends (drop m p) (S1, b1) ?sb'"
    using h1 by (simp add: bappends_def bhealthy_def bstream_def)
  then have "bappends (take m p @ drop m p) sb ?sb'"
    using bappends_trans l(2) sb1 by blast
  then show ?thesis using r by simp
qed

lemma bufio_WriteString_loop_healthy:
  "bhealthy sb \<Longrightarrow>
   \<exists>sb' m. bufio_WriteString_loop sb s nn = (sb', Returns (drop m s, nn + m)) \<and>
     bappends (take m s) sb sb' \<and> m \<le> length s \<and> length s - m \<le> Available (snd sb')"
proof (induction sb s nn rule: bufio_WriteString_loop.induct)
  case (1 sb s nn)
  obtain S b where sb: "sb = (S, b)" by (cases sb)
  show ?case
  proof (cases "length s > Available b \<and> err b = None")
    case False
    then have "bufio_WriteString_loop sb s nn = (sb, Returns (drop 0 s, nn + 0))"
      unfolding sb by (auto simp add: bufio_WriteString_loop.simps[of "(S, b)" s nn])
    moreover have "length s \<le> Available b" using False 1(2) sb by (simp add: bhealthy_def)
    ultimately show ?thesis using 1(2) sb
      by (intro exI[of _ sb] exI[of _ 0]) (simp add: bappends_refl)
  next
    case True
    have nd: "\<not> (buf b = [] \<and> Available b = 0)"
      using 1(2) sb by (auto simp: bhealthy_def Available_def)
    define m where "m = min (Available b) (length s)"
    define b1 where "b1 = b\<lparr>buf := buf b @ take m s\<rparr>"
    have h1: "bhealthy (S, b1)" using 1(2) sb by (simp add: bhealthy_def b1_def)
    obtain sb' where fl: "bufio_Flush (S, b1) = (sb', None)" "bappends [] (S, b1) sb'" "buf (snd sb') = []"
      using bufio_Flush_healthy[OF h1] by blast
    have a1: "bappends (take m s) sb (S, b1)"
      using 1(2) sb by (simp add: bappends_def bhealthy_def bstream_def b1_def)
    have a2: "bappends (take m s) sb sb'" using bappends_trans[OF a1 fl(2)] by simp
    have step: "bufio_WriteString_loop sb s nn = bufio_WriteString_loop sb' (drop m s) (nn + m)"
      unfolding sb using True nd fl(1)
      by (auto simp add: bufio_WriteString_loop.simps[of "(S, b)" s nn] m_def b1_def Let_def)
    have hs: "bhealthy sb'" using fl(2) by (simp add: bappends_def)
    have sb'eq: "sb' = fst (bufio_Flush (S, b\<lparr>buf := buf b @ take m s\<rparr>))"
      using fl(1) by (simp add: b1_def)
    obtain sb2 m2 where ih:
      "bufio_WriteString_loop sb' (drop m s) (nn + m) = (sb2, Returns (drop m2 (drop m s), nn + m + m2))"
      "bappends (take m2 (drop m s)) sb' sb2" "m2 \<le> length (drop m s)"
      "length (drop m s) - m2 \<le> Available (snd sb2)"
      using 1(1)[OF refl sb[symmetric] True nd m_def sb'eq hs]
      by blast
    have mle: "m \<le> length s" by (simp add: m_def)
    have "bappends (take m s @ take m2 (drop m s)) sb sb2" using bappends_trans[OF a2 ih(2)] .
    moreover have "take m s @ take m2 (drop m s) = take (m + m2) s"
      by (simp add: take_add)
    ultimately have "bappends (take (m + m2) s) sb sb2" by simp
    then show ?thesis using step ih mle
      by (intro exI[of _ sb2] exI[of _ "m + m2"]) (simp add: add.commute add.assoc)
  qed
qed

lemma bufio_WriteString_healthy:
  assumes "bhealthy sb"
  shows "\<exists>sb'. bufio_WriteString s sb = (sb', Returns (length s, None)) \<and> bappends s sb sb'"
proof -
  obtain sb1 m where l: "bufio_WriteString_loop sb s 0 = (sb1, Returns (drop m s, 0 + m))"
    "bappends (take m s) sb sb1" "m \<le> length s" "length s - m \<le> Available (snd sb1)"
    using bufio_WriteString_loop_healthy[OF assms, of s 0] by blast
  obtain S1 b1 where sb1: "sb1 = (S1, b1)" by (cases sb1)
  have h1: "bhealthy (S1, b1)" using l(2) sb1 by (simp add: bappends_def)
  let ?sb' = "(S1, b1\<lparr>buf := buf b1 @ drop m s\<rparr>)"
  have r: "bufio_WriteString s sb = (?sb', Returns (length s, None))"
    using l(1,3) sb1 h1 by (simp add: bufio_WriteString_def bind_def bhealthy_def)
  have "bappends (drop m s) (S1, b1) ?sb'"
    using h1 by (simp add: bappends_def bhealthy_def bstream_def)
  then have "bappends (take m s @ drop m s) sb ?sb'"
    using bappends_trans l(2) sb1 by blast
  then show ?thesis using r by simp
qed

lemma bufio_WriteByte_healthy:
  assumes "bhealthy sb"
  shows "\<exists>sb'. bufio_WriteByte c sb = (sb', Returns None) \<and> bappends [c] sb sb'"
proof -
  obtain S b where sb: "sb = (S, b)" by (cases sb)
  show ?thesis
  proof (cases "Available b \<le> 0")
    case False
    then show ?thesis using assms sb
      by (simp add: bufio_WriteByte_def bhealthy_def bappends_def bstream_def)
  next
    case True
    obtain sb1 where fl: "bufio_Flush sb = (sb1, None)" "bappends [] sb sb1" "buf (snd sb1) = []"
      using bufio_Flush_healthy[OF assms] by blast
    obtain S1 b1 where sb1: "sb1 = (S1, b1)" by (cases sb1)
    have h1: "bhealthy (S1, b1)" using fl(2) sb1 by (simp add: bappends_def)
    have av: "Available b1 \<noteq> 0" using h1 fl(3) sb1 by (simp add: bhealthy_def Available_def)
    let ?sb' = "(S1, b1\<lparr>buf := buf b1 @ [c]\<rparr>)"
    have r: "bufio_WriteByte c sb = (?sb', Returns None)"
      using True fl(1) sb sb1 av assms by (simp add: bufio_WriteByte_def bhealthy_def)
    have "bappends [c] (S1, b1) ?sb'"
      using h1 by (simp add: bappends_def bhealthy_def bstream_def)
    then have "bappends ([] @ [c]) sb ?sb'"
      using bappends_trans fl(2) sb1 by blast
    then show ?thesis using r by simp
  qed
qed


lemma healthy_bhealthy: "writer (blog st) = Some b \<Longrightarrow> healthy st = bhealthy (sinks st, b)"
  by (simp add: healthy_def bhealthy_def)

lemma appends_healthy: "appends x st st' \<Longrightarrow> healthy st'"
  by (auto simp: appends_def bappends_def healthy_def bhealthy_def split: option.splits)

lemma appends_stream: "appends x st st' \<Longrightarrow> stream st' = stream st @ x"
  by (auto simp: appends_def bappends_def stream_def bstream_def split: option.splits)

lemma appends_refl: "healthy st \<Longrightarrow> appends [] st st"
  by (auto simp: appends_def healthy_def bhealthy_def intro!: bappends_refl split: option.splits)

lemma appends_trans: "appends x a b \<Longrightarrow> appends y b c \<Longrightarrow> appends (x @ y) a c"
  by (auto simp: appends_def split: option.splits intro: bappends_trans)

lemma on_writer_healthy:
  assumes h: "healthy st"
    and f: "\<And>sb. bhealthy sb \<Longrightarrow> \<exists>sb'. f sb = (sb', Returns r) \<and> bappends x sb sb'"
  shows "\<exists>st'. on_writer f st = (st', Returns r) \<and> appends x st st'"
proof -
  obtain b where b: "writer (blog st) = Some b" using h by (auto simp: healthy_def split: option.splits)
  have "bhealthy (sinks st, b)" using h b by (simp add: healthy_bhealthy)
  then obtain S' b' where r: "f (sinks st, b) = ((S', b'), Returns r)" "bappends x (sinks st, b) (S', b')"
    using f by fastforce
  let ?st' = "st\<lparr>blog := (blog st)\<lparr>writer := Some b'\<rparr>, sinks := S'\<rparr>"
  have "on_writer f st = (?st', Returns r)" using b r(1) by (simp add: on_writer_def)
  moreover have "appends x st ?st'" using b r(2) by (simp add: appends_def)
  ultimately show ?thesis by blast
qed

lemma writer_Write_healthy:
  "healthy st \<Longrightarrow> \<exists>st'. writer_Write p st = (st', Returns (length p, None)) \<and> appends p st st'"
  unfolding writer_Write_def by (erule on_writer_healthy) (erule bufio_Write_healthy)

lemma writer_WriteString_healthy:
  "healthy st \<Longrightarrow> \<exists>st'. writer_WriteString s st = (st', Returns (length s, None)) \<and> appends s st st'"
  unfolding writer_WriteString_def by (erule on_writer_healthy) (erule bufio_WriteString_healthy)

lemma writer_WriteByte_healthy:
  "healthy st \<Longrightarrow> \<exists>st'. writer_WriteByte c st = (st', Returns None) \<and> appends [c] st st'"
  unfolding writer_WriteByte_def by (erule on_writer_healthy) (erule bufio_WriteByte_healthy)

lemma BLog_write_healthy:
  assumes "healthy st"
  shows "\<exists>st'. BLog_write E lv m st =
           (st', Returns (length (timeCache_format E) + length (Prefix E lv) + length m + 1)) \<and>
         appends (timeCache_format E @ Prefix E lv @ m @ [EOL]) st st'"
proof -
  obtain st1 where 1: "writer_Write (timeCache_format E) st = (st1, Returns (length (timeCache_format E), None))"
    "appends (timeCache_format E) st st1"
    using writer_Write_healthy[OF assms] by blast
  obtain st2 where 2: "writer_WriteString (Prefix E lv) st1 = (st2, Returns (length (Prefix E lv), None))"
    "appends (Prefix E lv) st1 st2"
    using writer_WriteString_healthy[OF appends_healthy[OF 1(2)]] by blast
  obtain st3 where 3: "writer_WriteString m st2 = (st3, Returns (length m, None))"
    "appends m st2 st3"
    using writer_WriteString_healthy[OF appends_healthy[OF 2(2)]] by blast
  obtain st4 where 4: "writer_WriteByte EOL st3 = (st4, Returns None)"
    "appends [EOL] st3 st4"
    using writer_WriteByte_healthy[OF appends_healthy[OF 3(2)]] by blast
  have "BLog_write E lv m st =
          (st4, Returns (length (timeCache_format E) + length (Prefix E lv) + length m + 1))"
    using 1(1) 2(1) 3(1) 4(1) by (simp add: BLog_write_def bind_def ret_def)
  moreover have "appends (timeCache_format E @ Prefix E lv @ m @ [EOL]) st st4"
    using appends_trans[OF 1(2) appends_trans[OF 2(2) appends_trans[OF 3(2) 4(2)]]] by simp
  ultimately show ?thesis by blast
qed

subsection \<open>The loop of \<^verbatim>\<open>writef\<close> on a writer in working order\<close>

lemma is_verb_ESCAPE [simp]: "\<not> is_verb ESCAPE" by (simp add: is_verb_def)
lemma is_verb_PLACEHOLDER [simp]: "\<not> is_verb PLACEHOLDER" by (simp add: is_verb_def)

lemma take_Suc_drop:
  "a \<le> i \<Longrightarrow> i < length f \<Longrightarrow> take (Suc i - a) (drop a f) = take (i - a) (drop a f) @ [f ! i]"
  by (simp add: Suc_diff_le take_Suc_conv_app_nth)

lemma body_verb:
  assumes "healthy st" "tag vs" "is_verb (format ! i)" "argn vs < length args"
    "tagPos vs \<le> i" "i < length format"
  shows "\<exists>st'. writef_body E format args i vs st =
           (st', Returns (vs\<lparr>escape := False,
              total := total vs + length (Sprintf E (take (Suc i - tagPos vs) (drop (tagPos vs) format)) (args ! argn vs)),
              argn := argn vs + 1, lastpos := i + 1, tag := False\<rparr>)) \<and>
         appends (Sprintf E (take (Suc i - tagPos vs) (drop (tagPos vs) format)) (args ! argn vs)) st st'"
proof -
  let ?r = "Sprintf E (take (Suc i - tagPos vs) (drop (tagPos vs) format)) (args ! argn vs)"
  obtain st' where w: "writer_WriteString ?r st = (st', Returns (length ?r, None))" "appends ?r st st'"
    using writer_WriteString_healthy[OF assms(1)] by blast
  have "writef_body E format args i vs st =
          (st', Returns (vs\<lparr>escape := False, total := total vs + length ?r,
              argn := argn vs + 1, lastpos := i + 1, tag := False\<rparr>))"
    using assms w(1) by (simp add: writef_body_def bind_def ret_def slice_def index_def)
  then show ?thesis using w(2) by blast
qed

lemma body_verb_panic:
  assumes "tag vs" "is_verb (format ! i)" "\<not> argn vs < length args"
    "tagPos vs \<le> i" "i < length format"
  shows "writef_body E format args i vs st = (st, Panics IndexOutOfRange)"
  using assms by (simp add: writef_body_def bind_def ret_def slice_def index_def)

lemma body_escape2:
  assumes "healthy st" "tag vs" "format ! i = ESCAPE" "escape vs"
  shows "\<exists>st'. writef_body E format args i vs st =
           (st', Returns (vs\<lparr>total := total vs + 1, escape := False\<rparr>)) \<and> appends [ESCAPE] st st'"
proof -
  obtain st' where w: "writer_WriteByte ESCAPE st = (st', Returns None)" "appends [ESCAPE] st st'"
    using writer_WriteByte_healthy[OF assms(1)] by blast
  have "writef_body E format args i vs st = (st', Returns (vs\<lparr>total := total vs + 1, escape := False\<rparr>))"
    using assms w(1) by (simp add: writef_body_def bind_def ret_def)
  then show ?thesis using w(2) by blast
qed

lemma body_escape1:
  assumes "tag vs" "format ! i = ESCAPE" "\<not> escape vs"
  shows "writef_body E format args i vs st = (st, Returns (vs\<lparr>escape := True\<rparr>))"
  using assms by (simp add: writef_body_def ret_def)

lemma body_flag:
  assumes "tag vs" "\<not> is_verb (format ! i)" "format ! i \<noteq> ESCAPE"
  shows "writef_body E format args i vs st = (st, Returns vs)"
  using assms by (simp add: writef_body_def ret_def)

lemma body_open:
  assumes "healthy st" "\<not> tag vs" "format ! i = PLACEHOLDER" "\<not> escape vs"
    "lastpos vs \<le> i" "i \<le> length format"
  shows "\<exists>st'. writef_body E format args i vs st =
           (st', Returns (vs\<lparr>tag := True, tagPos := i,
              total := total vs + length (take (i - lastpos vs) (drop (lastpos vs) format)),
              escape := False\<rparr>)) \<and>
         appends (take (i - lastpos vs) (drop (lastpos vs) format)) st st'"
proof -
  let ?r = "take (i - lastpos vs) (drop (lastpos vs) format)"
  obtain st' where w: "writer_WriteString ?r st = (st', Returns (length ?r, None))" "appends ?r st st'"
    using writer_WriteString_healthy[OF assms(1)] by blast
  have "writef_body E format args i vs st =
          (st', Returns (vs\<lparr>tag := True, tagPos := i, total := total vs + length ?r, escape := False\<rparr>))"
    using assms w(1) by (simp add: writef_body_def bind_def ret_def slice_def)
  then show ?thesis using w(2) by blast
qed

lemma body_literal:
  assumes "\<not> tag vs" "format ! i \<noteq> PLACEHOLDER \<or> escape vs"
  shows "writef_body E format args i vs st = (st, Returns vs)"
  using assms by (auto simp add: writef_body_def ret_def)

lemma finish_healthy:
  assumes "healthy st" "lastpos vs \<le> length format"
  shows "\<exists>st'. writef_rest E format args i 0 vs st =
           (st', Returns (total vs + length (drop (lastpos vs) format) + 1)) \<and>
         appends (drop (lastpos vs) format @ [EOL]) st st'"
proof -
  let ?r = "drop (lastpos vs) format"
  obtain st1 where 1: "writer_WriteString ?r st = (st1, Returns (length ?r, None))" "appends ?r st st1"
    using writer_WriteString_healthy[OF assms(1)] by blast
  obtain st2 where 2: "writer_WriteByte EOL st1 = (st2, Returns None)" "appends [EOL] st1 st2"
    using writer_WriteByte_healthy[OF appends_healthy[OF 1(2)]] by blast
  have "writef_rest E format args i 0 vs st = (st2, Returns (total vs + length ?r + 1))"
    using assms(2) 1(1) 2(1) by (simp add: bind_def ret_def slice_def)
  then show ?thesis using appends_trans[OF 1(2) 2(2)] by auto
qed

lemma writef_rest_Suc:
  "writef_rest E format args i (Suc k) vs st =
     (case writef_body E format args i vs st of
        (st', Returns vs') \<Rightarrow> writef_rest E format args (Suc i) k vs' st'
      | (st', Panics p) \<Rightarrow> (st', Panics p)
      | (st', Diverges) \<Rightarrow> (st', Diverges))"
  by (simp add: bind_def split: prod.splits outcome.splits)

lemma take_drop_join:
  "a \<le> t \<Longrightarrow> take (t - a) (drop a f) @ drop t f = drop a f"
proof -
  assume "a \<le> t"
  then have "drop t f = drop (t - a) (drop a f)" by simp
  then show ?thesis by (simp only: append_take_drop_id)
qed

lemma step_combine:
  assumes body: "writef_body E format args i vs st = (st1, Returns vs1)"
    and app: "appends x st st1"
    and tot: "total vs1 = total vs + length x"
    and IH: "rest_yields E format args (Suc i) k vs1 st1 R1"
  shows "rest_yields E format args i (Suc k) vs st (map_option (\<lambda>r. x @ r) R1)"
proof (cases R1)
  case None
  then obtain st' y where r: "writef_rest E format args (Suc i) k vs1 st1 = (st', Panics IndexOutOfRange)"
    "appends y st1 st'" using IH by (auto simp: rest_yields_def)
  have "writef_rest E format args i (Suc k) vs st = (st', Panics IndexOutOfRange)"
    using body r(1) by (simp only: writef_rest_Suc) simp
  then show ?thesis using None appends_trans[OF app r(2)] by (auto simp: rest_yields_def)
next
  case (Some out)
  then obtain st' where r: "writef_rest E format args (Suc i) k vs1 st1 = (st', Returns (total vs1 + length out + 1))"
    "appends (out @ [EOL]) st1 st'" using IH by (auto simp: rest_yields_def)
  have "writef_rest E format args i (Suc k) vs st = (st', Returns (total vs + length (x @ out) + 1))"
    using body r(1) tot by (simp only: writef_rest_Suc) simp
  moreover have "appends ((x @ out) @ [EOL]) st st'" using appends_trans[OF app r(2)] by simp
  ultimately show ?thesis using Some by (auto simp: rest_yields_def)
qed

lemma step_silent:
  assumes body: "writef_body E format args i vs st = (st, Returns vs1)"
    and h: "healthy st"
    and tot: "total vs1 = total vs"
    and IH: "rest_yields E format args (Suc i) k vs1 st R1"
  shows "rest_yields E format args i (Suc k) vs st R1"
proof -
  have "rest_yields E format args i (Suc k) vs st (map_option (\<lambda>r. [] @ r) R1)"
    by (rule step_combine[OF body appends_refl[OF h] _ IH]) (simp add: tot)
  then show ?thesis by (simp add: option.map_ident)
qed

lemma writef_rest_healthy:
  "healthy st \<Longrightarrow> related format i vs m \<Longrightarrow> length format - i = k \<Longrightarrow>
   rest_yields E format args i k vs st
     (rendered (Sprintf E) m (drop i format) (drop (argn vs) args))"
proof (induction k arbitrary: i vs m st)
  case 0
  then have i: "i = length format" by (simp add: related_def)
  have l: "lastpos vs \<le> length format" using 0(2) by (auto simp: related_def split: if_splits)
  obtain st' where f: "writef_rest E format args i 0 vs st =
      (st', Returns (total vs + length (drop (lastpos vs) format) + 1))"
    "appends (drop (lastpos vs) format @ [EOL]) st st'"
    using finish_healthy[OF 0(1) l] by blast
  have "rendered (Sprintf E) m (drop i format) (drop (argn vs) args) = Some (drop (lastpos vs) format)"
  proof (cases "tag vs")
    case True
    then show ?thesis using 0(2) i by (simp add: related_def take_drop_join)
  next
    case False
    then show ?thesis using 0(2) i by (simp add: related_def)
  qed
  then show ?case using f by (auto simp: rest_yields_def)
next
  case (Suc k)
  then have i: "i < length format" by simp
  let ?c = "format ! i"
  let ?S = "Sprintf E"
  let ?as = "drop (argn vs) args"
  have d: "drop i format = ?c # drop (Suc i) format" using i by (simp add: Cons_nth_drop_Suc)
  have k: "length format - Suc i = k" using Suc(4) by simp
  have iS: "Suc i \<le> length format" using i by simp
  show ?case
  proof (cases "tag vs")
    case True
    define lit where "lit = take (tagPos vs - lastpos vs) (drop (lastpos vs) format)"
    define ph where "ph = take (i - tagPos vs) (drop (tagPos vs) format)"
    have m: "m = Inside lit ph (escape vs)" and lt: "lastpos vs \<le> tagPos vs" and ti: "tagPos vs < i"
      using Suc(3) True by (simp_all add: related_def lit_def ph_def)
    have ph': "take (Suc i - tagPos vs) (drop (tagPos vs) format) = ph @ [?c]"
      using ti i by (simp add: take_Suc_drop ph_def)
    show ?thesis
    proof (cases "is_verb ?c")
      case v: True
      show ?thesis
      proof (cases "argn vs < length args")
        case a: True
        let ?a = "args ! argn vs"
        let ?r = "?S (ph @ [?c]) ?a"
        let ?vs1 = "vs\<lparr>escape := False, total := total vs + length ?r,
              argn := argn vs + 1, lastpos := i + 1, tag := False\<rparr>"
        obtain st1 where b: "writef_body E format args i vs st = (st1, Returns ?vs1)" "appends ?r st st1"
          using body_verb[OF Suc(2) True v a _ i, of E] ti ph' by auto
        have rel: "related format (Suc i) ?vs1 (Outside [])" using iS by (simp add: related_def)
        have ih: "rest_yields E format args (Suc i) k ?vs1 st1
            (rendered ?S (Outside []) (drop (Suc i) format) (drop (argn ?vs1) args))"
          by (rule Suc.IH[OF appends_healthy[OF b(2)] rel k])
        have das: "?as = ?a # drop (Suc (argn vs)) args" using a by (simp add: Cons_nth_drop_Suc)
        have "rendered ?S m (drop i format) ?as =
            map_option (\<lambda>r. ?r @ r) (rendered ?S (Outside []) (drop (Suc i) format) (drop (argn ?vs1) args))"
          using v by (simp add: m d das)
        moreover have "rest_yields E format args i (Suc k) vs st
            (map_option (\<lambda>r. ?r @ r) (rendered ?S (Outside []) (drop (Suc i) format) (drop (argn ?vs1) args)))"
          by (rule step_combine[OF b(1) b(2) _ ih]) simp
        ultimately show ?thesis by simp
      next
        case a: False
        have b: "writef_body E format args i vs st = (st, Panics IndexOutOfRange)"
          using body_verb_panic[OF True v a _ i] ti by simp
        have "writef_rest E format args i (Suc k) vs st = (st, Panics IndexOutOfRange)"
          using b by (simp only: writef_rest_Suc) simp
        moreover have "rendered ?S m (drop i format) ?as = None"
          using v a by (simp add: m d)
        ultimately show ?thesis using appends_refl[OF Suc(2)] by (auto simp: rest_yields_def)
      qed
    next
      case nv: False
      show ?thesis
      proof (cases "?c = ESCAPE")
        case e: True
        show ?thesis
        proof (cases "escape vs")
          case p: True
          let ?vs1 = "vs\<lparr>total := total vs + 1, escape := False\<rparr>"
          obtain st1 where b: "writef_body E format args i vs st = (st1, Returns ?vs1)" "appends [ESCAPE] st st1"
            using body_escape2[OF Suc(2) True e p] by blast
          have rel: "related format (Suc i) ?vs1 (Inside lit (ph @ [?c]) False)"
            using iS True lt ti ph' by (simp add: related_def lit_def)
          have ih: "rest_yields E format args (Suc i) k ?vs1 st1
              (rendered ?S (Inside lit (ph @ [?c]) False) (drop (Suc i) format) (drop (argn ?vs1) args))"
            by (rule Suc.IH[OF appends_healthy[OF b(2)] rel k])
          have "rendered ?S m (drop i format) ?as =
              map_option (\<lambda>r. [ESCAPE] @ r)
                (rendered ?S (Inside lit (ph @ [?c]) False) (drop (Suc i) format) (drop (argn ?vs1) args))"
            using nv e p by (simp add: m d)
          moreover have "rest_yields E format args i (Suc k) vs st
              (map_option (\<lambda>r. [ESCAPE] @ r)
                (rendered ?S (Inside lit (ph @ [?c]) False) (drop (Suc i) format) (drop (argn ?vs1) args)))"
            by (rule step_combine[OF b(1) b(2) _ ih]) simp
          ultimately show ?thesis by simp
        next
          case p: False
          let ?vs1 = "vs\<lparr>escape := True\<rparr>"
          have b: "writef_body E format args i vs st = (st, Returns ?vs1)"
            using body_escape1[OF True e p] .
          have rel: "related format (Suc i) ?vs1 (Inside lit (ph @ [?c]) True)"
            using iS True lt ti ph' by (simp add: related_def lit_def)
          have ih: "rest_yields E format args (Suc i) k ?vs1 st
              (rendered ?S (Inside lit (ph @ [?c]) True) (drop (Suc i) format) (drop (argn ?vs1) args))"
            by (rule Suc.IH[OF Suc(2) rel k])
          have "rendered ?S m (drop i format) ?as =
              rendered ?S (Inside lit (ph @ [?c]) True) (drop (Suc i) format) (drop (argn ?vs1) args)"
            using nv e p by (simp add: m d)
          moreover have "rest_yields E format args i (Suc k) vs st
              (rendered ?S (Inside lit (ph @ [?c]) True) (drop (Suc i) format) (drop (argn ?vs1) args))"
            by (rule step_silent[OF b Suc(2) _ ih]) simp
          ultimately show ?thesis by simp
        qed
      next
        case e: False
        have b: "writef_body E format args i vs st = (st, Returns vs)"
          using body_flag[OF True nv e] .
        have rel: "related format (Suc i) vs (Inside lit (ph @ [?c]) (escape vs))"
          using iS True lt ti ph' by (simp add: related_def lit_def)
        have ih: "rest_yields E format args (Suc i) k vs st
            (rendered ?S (Inside lit (ph @ [?c]) (escape vs)) (drop (Suc i) format) ?as)"
          by (rule Suc.IH[OF Suc(2) rel k])
        have "rendered ?S m (drop i format) ?as =
            rendered ?S (Inside lit (ph @ [?c]) (escape vs)) (drop (Suc i) format) ?as"
          using nv e by (simp add: m d)
        moreover have "rest_yields E format args i (Suc k) vs st
            (rendered ?S (Inside lit (ph @ [?c]) (escape vs)) (drop (Suc i) format) ?as)"
          by (rule step_silent[OF b Suc(2) _ ih]) simp
        ultimately show ?thesis by simp
      qed
    qed
  next
    case False
    define lit where "lit = take (i - lastpos vs) (drop (lastpos vs) format)"
    have m: "m = Outside lit" and li: "lastpos vs \<le> i" and ne: "\<not> escape vs"
      using Suc(3) False by (simp_all add: related_def lit_def)
    show ?thesis
    proof (cases "?c = PLACEHOLDER")
      case p: True
      let ?vs1 = "vs\<lparr>tag := True, tagPos := i, total := total vs + length lit, escape := False\<rparr>"
      obtain st1 where b: "writef_body E format args i vs st = (st1, Returns ?vs1)" "appends lit st st1"
        using body_open[OF Suc(2) False p ne li, of E args] i by (auto simp: lit_def)
      have "take (Suc 0) (drop i format) = [?c]" using d by simp
      then have rel: "related format (Suc i) ?vs1 (Inside lit [?c] False)"
        using iS li by (simp add: related_def lit_def)
      have ih: "rest_yields E format args (Suc i) k ?vs1 st1
          (rendered ?S (Inside lit [?c] False) (drop (Suc i) format) (drop (argn ?vs1) args))"
        by (rule Suc.IH[OF appends_healthy[OF b(2)] rel k])
      have "rendered ?S m (drop i format) ?as =
          map_option (\<lambda>r. lit @ r)
            (rendered ?S (Inside lit [?c] False) (drop (Suc i) format) (drop (argn ?vs1) args))"
        using p by (simp add: m d)
      moreover have "rest_yields E format args i (Suc k) vs st
          (map_option (\<lambda>r. lit @ r)
            (rendered ?S (Inside lit [?c] False) (drop (Suc i) format) (drop (argn ?vs1) args)))"
        by (rule step_combine[OF b(1) b(2) _ ih]) simp
      ultimately show ?thesis by simp
    next
      case p: False
      have b: "writef_body E format args i vs st = (st, Returns vs)"
        by (rule body_literal[OF False]) (simp add: p)
      have "take (Suc i - lastpos vs) (drop (lastpos vs) format) = lit @ [?c]"
        using li i by (simp add: take_Suc_drop lit_def)
      then have rel: "related format (Suc i) vs (Outside (lit @ [?c]))"
        using iS False li ne by (simp add: related_def)
      have ih: "rest_yields E format args (Suc i) k vs st
          (rendered ?S (Outside (lit @ [?c])) (drop (Suc i) format) ?as)"
        by (rule Suc.IH[OF Suc(2) rel k])
      have "rendered ?S m (drop i format) ?as =
          rendered ?S (Outside (lit @ [?c])) (drop (Suc i) format) ?as"
        using p by (simp add: m d)
      moreover have "rest_yields E format args i (Suc k) vs st
          (rendered ?S (Outside (lit @ [?c])) (drop (Suc i) format) ?as)"
        by (rule step_silent[OF b Suc(2) _ ih]) simp
      ultimately show ?thesis by simp
    qed
  qed
qed

lemma bind_Returns: "m st = (st', Returns a) \<Longrightarrow> bind m f st = f a st'"
  by (simp add: bind_def)

lemma BLog_writef_healthy:
  assumes "healthy st"
  shows "case rendered (Sprintf E) (Outside []) format args of
           Some body \<Rightarrow>
             (\<exists>st'. BLog_writef E lv format args st =
                      (st', Returns (length (timeCache_format E @ Prefix E lv @ body @ [EOL]))) \<and>
                    appends (timeCache_format E @ Prefix E lv @ body @ [EOL]) st st')
         | None \<Rightarrow>
             (\<exists>st' x. BLog_writef E lv format args st = (st', Panics IndexOutOfRange) \<and>
                      appends (timeCache_format E @ Prefix E lv @ x) st st')"
proof -
  let ?ts = "timeCache_format E" and ?px = "Prefix E lv"
  let ?vs = "vars0 (length ?ts + length ?px)"
  obtain st1 where 1: "writer_Write ?ts st = (st1, Returns (length ?ts, None))" "appends ?ts st st1"
    using writer_Write_healthy[OF assms] by blast
  obtain st2 where 2: "writer_WriteString ?px st1 = (st2, Returns (length ?px, None))" "appends ?px st1 st2"
    using writer_WriteString_healthy[OF appends_healthy[OF 1(2)]] by blast
  have a: "appends (?ts @ ?px) st st2" using appends_trans[OF 1(2) 2(2)] .
  have w: "BLog_writef E lv format args st = writef_rest E format args 0 (length format) ?vs st2"
    by (simp add: BLog_writef_def
          bind_Returns[of "writer_Write ?ts" st, OF 1(1)]
          bind_Returns[of "writer_WriteString ?px" st1, OF 2(1)])
  have rel: "related format 0 ?vs (Outside [])" by (simp add: related_def vars0_def)
  have "rest_yields E format args 0 (length format) ?vs st2
      (rendered (Sprintf E) (Outside []) (drop 0 format) (drop (argn ?vs) args))"
    by (rule writef_rest_healthy[OF appends_healthy[OF 2(2)] rel]) simp
  then have y: "rest_yields E format args 0 (length format) ?vs st2
      (rendered (Sprintf E) (Outside []) format args)"
    by (simp add: vars0_def)
  show ?thesis
  proof (cases "rendered (Sprintf E) (Outside []) format args")
    case None
    then obtain st' x where r: "writef_rest E format args 0 (length format) ?vs st2 = (st', Panics IndexOutOfRange)"
      "appends x st2 st'" using y by (auto simp: rest_yields_def)
    have "appends (?ts @ ?px @ x) st st'" using appends_trans[OF a r(2)] by simp
    then show ?thesis using None w r(1) by auto
  next
    case (Some body)
    then obtain st' where r: "writef_rest E format args 0 (length format) ?vs st2 =
        (st', Returns (total ?vs + length body + 1))"
      "appends (body @ [EOL]) st2 st'" using y by (auto simp: rest_yields_def)
    have "appends (?ts @ ?px @ body @ [EOL]) st st'" using appends_trans[OF a r(2)] by simp
    moreover have "total ?vs + length body + 1 = length (?ts @ ?px @ body @ [EOL])"
      by (simp add: vars0_def)
    ultimately show ?thesis using Some w r(1) by auto
  qed
qed

lemma rendered_None_iff:
  "rendered S m cs as = None \<longleftrightarrow> length as < spec_placeholders (inside m) cs"
  by (induction S m cs as rule: rendered.induct) (auto split: list.splits)


lemma rendered_spec_body:
  "terminated (esc_mode m) cs \<Longrightarrow> spec_placeholders (inside m) cs \<le> length as \<Longrightarrow>
   rendered S m cs as = Some (lit_mode m @ spec_body S (spec_mode m) cs as)"
  by (induction S m cs as rule: rendered.induct) (auto split: list.splits if_splits)

lemma healthy_demo_state: "healthy demo_state"
  by (simp add: healthy_def demo_state_def NewBLog_def NewWriterSize_def DefaultBufferSize_def empty_sink_def)

lemma stream_demo_state: "stream demo_state = []"
  by (simp add: stream_def demo_state_def NewBLog_def NewWriterSize_def empty_sink_def)

subsection \<open>Literal write\<close>



subsection \<open>Flush\<close>

lemma bufio_Flush_twice:
  "bufio_Flush sb = (sb', e) \<Longrightarrow> fst (bufio_Flush sb') = sb'"
  by (cases sb) (auto simp: bufio_Flush_def Let_def split: prod.splits if_splits)

text \<open>
  C6. \<^verbatim>\<open>flush\<close> is idempotent: in every state of the writer, a second \<^verbatim>\<open>flush\<close> right
  after the first leaves every destination, and the whole state, as the first left it, and
  ends as the first did.
\<close>

theorem flush_idempotent:
  "destination (fst (BLog_flush (fst (BLog_flush st)))) = destination (fst (BLog_flush st)) \<and>
   fst (BLog_flush (fst (BLog_flush st))) = fst (BLog_flush st) \<and>
   snd (BLog_flush (fst (BLog_flush st))) = snd (BLog_flush st)"
proof (cases "writer (blog st)")
  case None
  then show ?thesis
    by (simp add: BLog_flush_def bind_def writer_Flush_def on_writer_def)
next
  case (Some b)
  obtain S' b' e where fl: "bufio_Flush (sinks st, b) = ((S', b'), e)"
    by (metis surj_pair)
  have 2: "fst (bufio_Flush (S', b')) = (S', b')" using bufio_Flush_twice[OF fl] .
  let ?st' = "st\<lparr>blog := (blog st)\<lparr>writer := Some b'\<rparr>, sinks := S'\<rparr>"
  have 1: "BLog_flush st = (?st', Returns ())"
    using Some fl by (simp add: BLog_flush_def bind_def ret_def writer_Flush_def on_writer_def)
  obtain e2 where "bufio_Flush (S', b') = ((S', b'), e2)" using 2 by (metis prod.collapse)
  then have "BLog_flush ?st' = (?st', Returns ())"
    by (simp add: BLog_flush_def bind_def ret_def writer_Flush_def on_writer_def)
  with 1 show ?thesis by simp
qed

subsection \<open>Formatted write\<close>

lemma writef_returns:
  assumes "healthy st" "rendered (Sprintf E) (Outside []) format args = Some body"
  shows "snd (BLog_writef E lv format args st) =
           Returns (length (timeCache_format E @ Prefix E lv @ body @ [EOL])) \<and>
         stream (fst (BLog_writef E lv format args st)) =
           stream st @ timeCache_format E @ Prefix E lv @ body @ [EOL]"
  using BLog_writef_healthy[OF assms(1), where E=E and format=format and args=args and lv=lv] assms(2)
  by (auto dest: appends_stream)

lemma writef_panics:
  assumes "healthy st" "rendered (Sprintf E) (Outside []) format args = None"
  shows "snd (BLog_writef E lv format args st) = Panics IndexOutOfRange"
  using BLog_writef_healthy[OF assms(1), where E=E and format=format and args=args and lv=lv] assms(2)
  by auto


lemma writef_underflow:
  assumes "healthy st" "length args < spec_placeholders False format"
  shows "snd (BLog_writef E lv format args st) = Panics IndexOutOfRange"
proof -
  have "rendered (Sprintf E) (Outside []) format args = None"
    using rendered_None_iff[of "Sprintf E" "Outside []" format args] assms(2) by simp
  from writef_panics[OF assms(1) this] show ?thesis .
qed

text \<open>
  C1, as amended. For every format string whose placeholders are all closed by a verb and
  hold no second \<^verbatim>\<open>\\<close>, and every argument sequence with one argument per placeholder,
  \<^verbatim>\<open>writef\<close> on a writer in working order appends time stamp, prefix, body and terminator,
  where the body renders each placeholder against its positional argument, from left to
  right, and passes every other character through unchanged; it returns the length of that
  line.
\<close>

theorem writef_renders_terminated:
  assumes "healthy st" "terminated None format" "length args = spec_placeholders False format"
  shows "snd (BLog_writef E lv format args st) =
           Returns (length (timeCache_format E @ Prefix E lv @
                            spec_body (Sprintf E) None format args @ [EOL])) \<and>
         stream (fst (BLog_writef E lv format args st)) =
           stream st @ timeCache_format E @ Prefix E lv @
             spec_body (Sprintf E) None format args @ [EOL]"
proof -
  have "rendered (Sprintf E) (Outside []) format args = Some (spec_body (Sprintf E) None format args)"
    using rendered_spec_body[of "Outside []" format args "Sprintf E"] assms(2,3) by simp
  from writef_returns[OF assms(1) this] show ?thesis .
qed

theorem writef_renders_terminated_witness:
  "healthy demo_state \<and> terminated None ''hello %s, you are %d'' \<and>
   length [Str ''world'', Num 3] = spec_placeholders False ''hello %s, you are %d'' \<and>
   spec_body (Sprintf demo_env) None ''hello %s, you are %d'' [Str ''world'', Num 3] =
     ''hello world, you are 3'' \<and>
   snd (BLog_writef demo_env INFO ''hello %s, you are %d'' [Str ''world'', Num 3] demo_state) =
     Returns 38 \<and>
   stream (fst (BLog_writef demo_env INFO ''hello %s, you are %d'' [Str ''world'', Num 3] demo_state)) =
     ''12:00:00 [LOG] hello world, you are 3'' @ [EOL]"
  using writef_renders_terminated[where st=demo_state and format="''hello %s, you are %d''"
      and args="[Str ''world'', Num 3]" and E=demo_env and lv=INFO]
  by (simp add: healthy_demo_state stream_demo_state demo_env_def is_verb_def)

text \<open>
  The claim as stated fails where the format string ends inside a placeholder: with no
  complete placeholder and no argument, \<^verbatim>\<open>"ab%"\<close> yields the body \<^verbatim>\<open>"abab%"\<close>.
  It also fails where a placeholder holds two \<^verbatim>\<open>\\<close>: the body then starts with a
  \<^verbatim>\<open>\\<close> that is neither a literal of the format string outside the placeholder nor part
  of the rendering.
\<close>

theorem writef_unterminated_counterexample:
  "healthy demo_state \<and> length ([] :: arg list) = spec_placeholders False ''ab%'' \<and>
   spec_body (Sprintf demo_env) None ''ab%'' [] = ''ab%'' \<and>
   stream (fst (BLog_writef demo_env INFO ''ab%'' [] demo_state)) =
     ''12:00:00 [LOG] abab%'' @ [EOL] \<and>
   stream (fst (BLog_writef demo_env INFO ''ab%'' [] demo_state)) \<noteq>
     stream demo_state @ timeCache_format demo_env @ Prefix demo_env INFO @
       spec_body (Sprintf demo_env) None ''ab%'' [] @ [EOL] \<and>
   length [Num 7] = spec_placeholders False [PLACEHOLDER, ESCAPE, ESCAPE, CHR ''d''] \<and>
   spec_body (Sprintf demo_env) None [PLACEHOLDER, ESCAPE, ESCAPE, CHR ''d''] [Num 7] = ''7'' \<and>
   stream (fst (BLog_writef demo_env INFO [PLACEHOLDER, ESCAPE, ESCAPE, CHR ''d''] [Num 7] demo_state)) =
     ''12:00:00 [LOG] '' @ [ESCAPE] @ ''7'' @ [EOL]"
  using writef_returns[where st=demo_state and E=demo_env and format="''ab%''" and args="[]" and body="''abab%''" and lv=INFO]
    writef_returns[where st=demo_state and E=demo_env and format="[PLACEHOLDER, ESCAPE, ESCAPE, CHR ''d'']"
      and args="[Num 7]" and body="[ESCAPE] @ ''7''" and lv=INFO]
  by (simp add: healthy_demo_state stream_demo_state demo_env_def is_verb_def)






subsection \<open>The escape flag\<close>

lemma writef_body_escape_inv:
  assumes "writef_body E format args i vs st = (st', Returns vs')" "tag vs \<or> \<not> escape vs"
  shows "tag vs' \<or> \<not> escape vs'"
  using assms
  by (auto simp: writef_body_def bind_def ret_def slice_def index_def Let_def
           split: if_splits prod.splits outcome.splits)

lemma writef_body_lastpos_inv:
  assumes "writef_body E format args i vs st = (st', Returns vs')" "lastpos vs \<le> i"
  shows "lastpos vs' \<le> Suc i"
  using assms
  by (auto simp: writef_body_def bind_def ret_def slice_def index_def Let_def
           split: if_splits prod.splits outcome.splits)

lemma writef_loop_inv:
  "writef_loop E format args i k vs st = (st', Returns vs') \<Longrightarrow>
   tag vs \<or> \<not> escape vs \<Longrightarrow> lastpos vs \<le> i \<Longrightarrow>
   (tag vs' \<or> \<not> escape vs') \<and> lastpos vs' \<le> i + k"
proof (induction k arbitrary: i vs st)
  case 0
  then show ?case by simp
next
  case (Suc k)
  obtain st1 o1 where b: "writef_body E format args i vs st = (st1, o1)" by (metis surj_pair)
  show ?case
  proof (cases o1)
    case (Returns vs1)
    have l: "writef_loop E format args (i + 1) k vs1 st1 = (st', Returns vs')"
      using Suc(2) b Returns by simp
    have "(tag vs' \<or> \<not> escape vs') \<and> lastpos vs' \<le> (i + 1) + k"
      by (rule Suc.IH[OF l writef_body_escape_inv[OF b[unfolded Returns] Suc(3)]])
         (use writef_body_lastpos_inv[OF b[unfolded Returns] Suc(4)] in simp)
    then show ?thesis by simp
  next
    case (Panics p)
    then show ?thesis using Suc(2) b by simp
  next
    case Diverges
    then show ?thesis using Suc(2) b by simp
  qed
qed

text \<open>
  C9. After any number \<open>j\<close> of iterations of the scan, the escape flag is clear whenever
  the scanner is outside a placeholder. So a \<^verbatim>\<open>%\<close> met outside a placeholder always opens
  one at its offset, whatever precedes it: a \<^verbatim>\<open>\\<close> before a \<^verbatim>\<open>%\<close> outside a placeholder
  does not escape it.
\<close>

theorem escape_only_inside:
  assumes "writef_loop E format args 0 j (vars0 sz) st = (st1, Returns vs)"
  shows "(\<not> tag vs \<longrightarrow> \<not> escape vs) \<and>
         (\<not> tag vs \<and> j < length format \<and> format ! j = PLACEHOLDER \<and> healthy st1 \<longrightarrow>
            (\<exists>st2 vs'. writef_body E format args j vs st1 = (st2, Returns vs') \<and>
                       tag vs' \<and> tagPos vs' = j))"
proof -
  have inv: "(tag vs \<or> \<not> escape vs) \<and> lastpos vs \<le> 0 + j"
    by (rule writef_loop_inv[OF assms]) (simp_all add: vars0_def)
  show ?thesis
  proof (intro conjI impI)
    show "\<not> tag vs \<Longrightarrow> \<not> escape vs" using inv by blast
  next
    assume a: "\<not> tag vs \<and> j < length format \<and> format ! j = PLACEHOLDER \<and> healthy st1"
    then have ne: "\<not> escape vs" using inv by blast
    obtain st2 where "writef_body E format args j vs st1 =
        (st2, Returns (vs\<lparr>tag := True, tagPos := j,
              total := total vs + length (take (j - lastpos vs) (drop (lastpos vs) format)),
              escape := False\<rparr>))"
      using body_open[where st=st1 and vs=vs and format=format and i=j and E=E and args=args] a ne inv
      by auto
    then show "\<exists>st2 vs'. writef_body E format args j vs st1 = (st2, Returns vs') \<and>
                       tag vs' \<and> tagPos vs' = j"
      by (intro exI conjI) (assumption, simp_all)
  qed
qed

theorem escape_only_inside_witness:
  "writef_loop demo_env [ESCAPE, PLACEHOLDER, CHR ''s''] [] 0 (Suc 0) (vars0 0) demo_state =
     (demo_state, Returns (vars0 0)) \<and>
   \<not> tag (vars0 0) \<and> \<not> escape (vars0 0) \<and> healthy demo_state \<and>
   (\<exists>st2 vs'. writef_body demo_env [ESCAPE, PLACEHOLDER, CHR ''s''] [] (Suc 0) (vars0 0) demo_state =
                (st2, Returns vs') \<and> tag vs' \<and> tagPos vs' = Suc 0)"
proof -
  have l: "writef_loop demo_env [ESCAPE, PLACEHOLDER, CHR ''s''] [] 0 (Suc 0) (vars0 0) demo_state =
     (demo_state, Returns (vars0 0))"
    by (simp add: writef_body_def vars0_def ret_def)
  show ?thesis
    using escape_only_inside[OF l] l healthy_demo_state by (simp add: vars0_def)
qed

subsection \<open>A format string that ends inside a placeholder\<close>







subsection \<open>Sink errors during flush, swap and close\<close>






subsection \<open>Close, swap and sequences of writes\<close>

lemma closed_panics:
  assumes "writer (blog st) = None"
  shows "BLog_write E lv m st = (st, Panics NilPointer)"
    and "BLog_writef E lv f as st = (st, Panics NilPointer)"
    and "BLog_flush st = (st, Panics NilPointer)"
    and "BLog_resetFile i st = (st, Panics NilPointer)"
    and "BLog_Close st = (st, Panics NilPointer)"
  using assms
  by (simp_all add: BLog_write_def BLog_writef_def BLog_flush_def BLog_resetFile_def BLog_Close_def
      bind_def writer_Write_def writer_Flush_def on_writer_def)

lemma appends_frame:
  assumes "appends x st st'" "writer (blog st) = Some b"
  shows "\<exists>b'. writer (blog st') = Some b' \<and> wr b' = wr b \<and> bcap b' = bcap b \<and>
           (\<forall>k. k \<noteq> wr b \<longrightarrow> sinks st' k = sinks st k)"
proof -
  obtain b' where b': "writer (blog st') = Some b'" "bappends x (sinks st, b) (sinks st', b')"
    using assms by (auto simp: appends_def split: option.splits)
  have "sinks st' = (sinks st)(wr b := sinks st' (wr b))" using b'(2) by (simp add: bappends_def)
  then have "\<forall>k. k \<noteq> wr b \<longrightarrow> sinks st' k = sinks st k"
    by (metis fun_upd_other)
  then show ?thesis using b' by (simp add: bappends_def)
qed

lemma writer_Flush_healthy:
  assumes "healthy st" "writer (blog st) = Some b"
  shows "\<exists>st' b'. writer_Flush st = (st', Returns None) \<and> appends [] st st' \<and>
           writer (blog st') = Some b' \<and> buf b' = [] \<and> destination st' (wr b) = stream st"
proof -
  have h: "bhealthy (sinks st, b)" using assms by (simp add: healthy_bhealthy)
  obtain S' b' where fl: "bufio_Flush (sinks st, b) = ((S', b'), None)"
    "bappends [] (sinks st, b) (S', b')" "buf b' = []"
    using bufio_Flush_healthy[OF h] by fastforce
  let ?st' = "st\<lparr>blog := (blog st)\<lparr>writer := Some b'\<rparr>, sinks := S'\<rparr>"
  have 1: "writer_Flush st = (?st', Returns None)"
    using assms(2) fl(1) by (simp add: writer_Flush_def on_writer_def)
  have 2: "appends [] st ?st'" using assms(2) fl(2) by (simp add: appends_def)
  have "written (S' (wr b)) = stream st"
    using fl(2,3) assms(2) by (auto simp: bappends_def bstream_def stream_def)
  then have 3: "destination ?st' (wr b) = stream st" by (simp add: destination_def)
  show ?thesis using 1 2 3 fl(3) by (intro exI[of _ ?st'] exI[of _ b']) simp
qed

lemma BLog_Close_healthy:
  assumes "healthy st" "writer (blog st) = Some b"
  shows "snd (BLog_Close st) = Returns () \<and> writer (blog (fst (BLog_Close st))) = None \<and>
         destination (fst (BLog_Close st)) (wr b) = stream st"
proof -
  obtain st' b' where f: "writer_Flush st = (st', Returns None)" "destination st' (wr b) = stream st"
    using writer_Flush_healthy[OF assms] by blast
  show ?thesis using f
    by (simp add: BLog_Close_def bind_Returns[of writer_Flush st, OF f(1)] ret_def destination_def)
qed




lemma BLog_Close_nil: "writer (blog (fst (BLog_Close st))) = None"
  by (cases "writer (blog st)")
     (auto simp: BLog_Close_def bind_def ret_def writer_Flush_def on_writer_def
           split: prod.splits outcome.splits)

text \<open>
  C5, as amended. After \<^verbatim>\<open>Close\<close> the buffered writer is \<^verbatim>\<open>nil\<close>, and every later
  \<^verbatim>\<open>write\<close>, \<^verbatim>\<open>writef\<close>, \<^verbatim>\<open>flush\<close> or \<^verbatim>\<open>resetFile\<close> on that writer aborts with a
  nil-pointer panic and leaves the state as it was; none returns an error. \<^verbatim>\<open>Close\<close>
  flushes before it drops the buffered writer: on a writer in working order, a message
  written right before \<^verbatim>\<open>Close\<close> is in the destination once, after what the stream held.
\<close>

theorem use_after_close:
  "(let closed = fst (BLog_Close st) in
      writer (blog closed) = None \<and>
      BLog_write E lv m closed = (closed, Panics NilPointer) \<and>
      BLog_writef E lv f as closed = (closed, Panics NilPointer) \<and>
      BLog_flush closed = (closed, Panics NilPointer) \<and>
      BLog_resetFile i closed = (closed, Panics NilPointer)) \<and>
   (healthy st \<and> writer (blog st) = Some b \<longrightarrow>
      snd (BLog_Close (fst (BLog_write E lv m st))) = Returns () \<and>
      destination (fst (BLog_Close (fst (BLog_write E lv m st)))) (wr b) =
        stream st @ timeCache_format E @ Prefix E lv @ m @ [EOL])"
proof (intro conjI impI)
  show "let closed = fst (BLog_Close st) in
      writer (blog closed) = None \<and>
      BLog_write E lv m closed = (closed, Panics NilPointer) \<and>
      BLog_writef E lv f as closed = (closed, Panics NilPointer) \<and>
      BLog_flush closed = (closed, Panics NilPointer) \<and>
      BLog_resetFile i closed = (closed, Panics NilPointer)"
    by (simp add: Let_def closed_panics[OF BLog_Close_nil] BLog_Close_nil)
next
  assume a: "healthy st \<and> writer (blog st) = Some b"
  obtain st1 where w: "BLog_write E lv m st =
      (st1, Returns (length (timeCache_format E) + length (Prefix E lv) + length m + 1))"
    "appends (timeCache_format E @ Prefix E lv @ m @ [EOL]) st st1"
    using BLog_write_healthy[of st E lv m] a by blast
  obtain b1 where b1: "writer (blog st1) = Some b1" "wr b1 = wr b"
    using appends_frame[OF w(2)] a by blast
  have c: "snd (BLog_Close st1) = Returns () \<and> destination (fst (BLog_Close st1)) (wr b1) = stream st1"
    using BLog_Close_healthy[OF appends_healthy[OF w(2)] b1(1)] by simp
  show "snd (BLog_Close (fst (BLog_write E lv m st))) = Returns ()" using c w(1) by simp
  show "destination (fst (BLog_Close (fst (BLog_write E lv m st)))) (wr b) =
        stream st @ timeCache_format E @ Prefix E lv @ m @ [EOL]"
    using c w(1) b1(2) appends_stream[OF w(2)] by simp
qed

theorem use_after_close_witness:
  "healthy demo_state \<and> writer (blog demo_state) = Some (NewWriterSize 0 DefaultBufferSize) \<and>
   snd (BLog_Close (fst (BLog_write demo_env DEBUG ''boot complete'' demo_state))) = Returns () \<and>
   destination (fst (BLog_Close (fst (BLog_write demo_env DEBUG ''boot complete'' demo_state)))) 0 =
     ''12:00:00 [LOG] boot complete'' @ [EOL]"
  using use_after_close[where st=demo_state and b="NewWriterSize 0 DefaultBufferSize"
      and E=demo_env and lv=DEBUG and m="''boot complete''"]
  by (simp add: healthy_demo_state stream_demo_state demo_env_def)
     (simp add: demo_state_def NewBLog_def NewWriterSize_def)

text \<open>
  The claim as stated fails: after \<^verbatim>\<open>Close\<close> the four operations do not return an error
  result, they panic.
\<close>

theorem use_after_close_counterexample:
  "snd (BLog_write demo_env DEBUG ''x'' (fst (BLog_Close demo_state))) = Panics NilPointer \<and>
   snd (BLog_writef demo_env DEBUG ''%d'' [Num 1] (fst (BLog_Close demo_state))) = Panics NilPointer \<and>
   snd (BLog_flush (fst (BLog_Close demo_state))) = Panics NilPointer \<and>
   snd (BLog_resetFile 1 (fst (BLog_Close demo_state))) = Panics NilPointer"
  by (simp add: closed_panics[OF BLog_Close_nil])



end
